theory Spec2Isabelle
  imports Complex_Main
begin

section \<open>Replay timeline: hover time under zoom, and the playback controls\<close>

text \<open>
  The development embeds two pieces of the replay player:
  \<^item> \<open>useTimelineMouseTracking\<close> (its callback \<open>handlePositionChange\<close>), which turns a
    pointer position on the zoomed timeline into the hover-preview time;
  \<^item> the two click handlers of \<open>ReplayPlayPauseBar\<close> in \<open>replayController.tsx\<close>
    (rewind by ten seconds, jump to the next chapter frame).

  The hover callback is embedded twice. The first embedding takes a JavaScript
  \<open>number\<close> as a \<open>real\<close>: arithmetic is exact, and it carries the statements that are
  identities between expressions or concern only which value is stored (a theorem
  there that states the value of a quotient assumes its divisor is not zero). The
  second embedding computes in IEEE 754 double precision, with round-to-nearest-even
  after every operation, and carries the statements on bounds and order, which depend
  on rounding. \<open>undefined\<close> is \<open>None\<close> in both.
\<close>

subsection \<open>Hover time on the zoomed timeline\<close>

text \<open>The argument of the callback: \<open>const {left, width} = params\<close>.\<close>

record params =
  left :: real
  width :: real

text \<open>
  Modelled from the spec: \<open>sentry/utils/number/divide\<close> is imported by the hook but is not
  among the sources. The spec gives \<open>percentComplete = currentTimeMs / durationMs\<close>, a plain
  quotient.
\<close>

definition divide_number :: "real \<Rightarrow> real \<Rightarrow> real" where
  "divide_number numerator denominator = numerator / denominator"

text \<open>\<open>const initialTranslate = 0.5 / scale\<close>\<close>

definition initialTranslate :: "real \<Rightarrow> real" where
  "initialTranslate scale = 0.5 / scale"

text \<open>\<open>const percentComplete = divide(currentTime, durationMs)\<close>\<close>

definition percentComplete :: "real \<Rightarrow> real \<Rightarrow> real" where
  "percentComplete currentTime durationMs = divide_number currentTime durationMs"

text \<open>\<open>const starting = percentComplete < initialTranslate\<close>\<close>

definition starting :: "real \<Rightarrow> real \<Rightarrow> real \<Rightarrow> bool" where
  "starting scale currentTime durationMs \<longleftrightarrow>
     percentComplete currentTime durationMs < initialTranslate scale"

text \<open>\<open>const ending = percentComplete + initialTranslate > 1\<close>\<close>

definition ending :: "real \<Rightarrow> real \<Rightarrow> real \<Rightarrow> bool" where
  "ending scale currentTime durationMs \<longleftrightarrow>
     percentComplete currentTime durationMs + initialTranslate scale > 1"

text \<open>
  The closure \<open>time\<close>: the start branch, then the end branch, then the branch centred on
  the playhead, which rebinds \<open>percent\<close>.
\<close>

definition time :: "params \<Rightarrow> real \<Rightarrow> real \<Rightarrow> real \<Rightarrow> real" where
  "time p durationMs currentTime scale =
     (let percent = left p / width p in
      if starting scale currentTime durationMs then (percent * durationMs) / scale
      else if ending scale currentTime durationMs
        then (percent * durationMs) / scale + (1 - 1 / scale) * durationMs
      else (let percent = (left p - width p / 2) / width p in
            currentTime + (percent * durationMs) / scale))"

text \<open>
  \<open>handlePositionChange\<close>. The arguments are \<open>params\<close> (possibly \<open>undefined\<close>), the value of
  \<open>replay?.getDurationMs()\<close> (\<open>undefined\<close> when no replay is loaded), \<open>currentTime\<close> and
  \<open>scale\<close>. Every path ends in exactly one call of \<open>setCurrentHoverTime\<close>; the result is
  the value handed to it. The callback contains no \<open>throw\<close>.
\<close>

definition handlePositionChange ::
    "params option \<Rightarrow> real option \<Rightarrow> real \<Rightarrow> real \<Rightarrow> real option" where
  "handlePositionChange params durationMs currentTime scale =
     (case params of
        None \<Rightarrow> None
      | Some p \<Rightarrow>
          (case durationMs of
             None \<Rightarrow> None
           | Some d \<Rightarrow>
               if left p \<ge> 0 then Some (time p d currentTime scale) else None))"

text \<open>
  The three-branch formula in the words of the specification (section 4.4, steps 1 to 5),
  written independently of the code above so that the two can be compared.
\<close>

definition spec_pixelToTime :: "real \<Rightarrow> real \<Rightarrow> real \<Rightarrow> real \<Rightarrow> real \<Rightarrow> real" where
  "spec_pixelToTime pixelX w zoom currentTimeMs durationMs =
     (if currentTimeMs / durationMs < 0.5 / zoom
        then (pixelX / w) * durationMs / zoom
      else if currentTimeMs / durationMs + 0.5 / zoom > 1
        then (pixelX / w) * durationMs / zoom + (1 - 1 / zoom) * durationMs
      else currentTimeMs + ((pixelX - w / 2) / w) * durationMs / zoom)"

subsection \<open>Double-precision arithmetic\<close>

text \<open>
  A JavaScript \<open>number\<close> is an IEEE 754 binary64 value: a finite double, an infinity or
  \<open>NaN\<close>. A finite double is represented by the real number it denotes; the model has a
  single zero, so the sign of a zero (which JavaScript shows only when dividing by it) is
  not represented.
\<close>

datatype number = NaN | NegInf | Fin real | PosInf

text \<open>\<open>pow2 k\<close> is \<open>2\<close> to the power \<open>k\<close> for an integer \<open>k\<close>.\<close>

definition pow2 :: "int \<Rightarrow> real" where
  "pow2 k = (if 0 \<le> k then 2 ^ nat k else 1 / 2 ^ nat (- k))"

text \<open>
  The binary exponent of \<open>x\<close>, kept within the exponent range of normal doubles:
  the largest \<open>k\<close> in \<open>-1022..1023\<close> with \<open>2^k \<le> |x|\<close>, and \<open>-1022\<close> below the normal
  range (subnormal numbers share the spacing of the smallest normal ones).
\<close>

definition expo :: "real \<Rightarrow> int" where
  "expo x = (if \<bar>x\<bar> < pow2 (-1022) then -1022
             else Max {k \<in> {-1022..1023}. pow2 k \<le> \<bar>x\<bar>})"

text \<open>Rounding to the nearest integer, a tie going to the even one.\<close>

definition roundTiesToEven :: "real \<Rightarrow> int" where
  "roundTiesToEven x =
     (let f = \<lfloor>x\<rfloor>; r = x - of_int f in
      if r < 1 / 2 then f else if 1 / 2 < r then f + 1 else if even f then f else f + 1)"

text \<open>
  The spacing of the doubles around \<open>x\<close> (53 significant bits), and the nearest multiple
  of that spacing.
\<close>

definition ulp :: "real \<Rightarrow> real" where
  "ulp x = pow2 (expo x - 52)"

definition roundToDouble :: "real \<Rightarrow> real" where
  "roundToDouble x = of_int (roundTiesToEven (x / ulp x)) * ulp x"

text \<open>
  A result of magnitude at least \<open>2^1024 - 2^970\<close> (the largest double plus half a
  spacing) rounds to an infinity.
\<close>

definition overflow_threshold :: real where
  "overflow_threshold = pow2 1024 - pow2 970"

text \<open>The correctly rounded result of an operation whose exact result is \<open>x\<close>.\<close>

definition round_number :: "real \<Rightarrow> number" where
  "round_number x =
     (if overflow_threshold \<le> x then PosInf
      else if x \<le> - overflow_threshold then NegInf
      else Fin (roundToDouble x))"

text \<open>The doubles are the reals that rounding leaves unchanged.\<close>

definition is_double :: "real \<Rightarrow> bool" where
  "is_double x \<longleftrightarrow> round_number x = Fin x"

text \<open>A value a JavaScript \<open>number\<close> can hold.\<close>

definition js_value :: "number \<Rightarrow> bool" where
  "js_value x = (case x of Fin a \<Rightarrow> is_double a | _ \<Rightarrow> True)"

text \<open>
  The operators \<open>+\<close>, \<open>-\<close>, \<open>*\<close>, \<open>/\<close> and the comparisons \<open><\<close>, \<open><=\<close>, \<open>>\<close>, \<open>>=\<close> of
  JavaScript on numbers. A comparison with \<open>NaN\<close> is false. Dividing a non-zero finite
  number by zero gives an infinity of the sign of the dividend (the zero taken as
  \<open>+0\<close>), and \<open>0 / 0\<close> is \<open>NaN\<close>.
\<close>

fun js_neg :: "number \<Rightarrow> number" where
  "js_neg NaN = NaN"
| "js_neg NegInf = PosInf"
| "js_neg PosInf = NegInf"
| "js_neg (Fin a) = Fin (- a)"

fun js_add :: "number \<Rightarrow> number \<Rightarrow> number" where
  "js_add (Fin a) (Fin b) = round_number (a + b)"
| "js_add NaN y = NaN"
| "js_add x NaN = NaN"
| "js_add PosInf NegInf = NaN"
| "js_add NegInf PosInf = NaN"
| "js_add PosInf y = PosInf"
| "js_add x PosInf = PosInf"
| "js_add NegInf y = NegInf"
| "js_add x NegInf = NegInf"

definition js_sub :: "number \<Rightarrow> number \<Rightarrow> number" where
  "js_sub x y = js_add x (js_neg y)"

definition inf_of_sign :: "bool \<Rightarrow> number" where
  "inf_of_sign positive = (if positive then PosInf else NegInf)"

fun js_mul :: "number \<Rightarrow> number \<Rightarrow> number" where
  "js_mul (Fin a) (Fin b) = round_number (a * b)"
| "js_mul NaN y = NaN"
| "js_mul x NaN = NaN"
| "js_mul (Fin a) PosInf = (if a = 0 then NaN else inf_of_sign (0 < a))"
| "js_mul (Fin a) NegInf = (if a = 0 then NaN else inf_of_sign (a < 0))"
| "js_mul PosInf (Fin b) = (if b = 0 then NaN else inf_of_sign (0 < b))"
| "js_mul NegInf (Fin b) = (if b = 0 then NaN else inf_of_sign (b < 0))"
| "js_mul PosInf PosInf = PosInf"
| "js_mul NegInf NegInf = PosInf"
| "js_mul PosInf NegInf = NegInf"
| "js_mul NegInf PosInf = NegInf"

fun js_div :: "number \<Rightarrow> number \<Rightarrow> number" where
  "js_div (Fin a) (Fin b) =
     (if b = 0 then (if a = 0 then NaN else inf_of_sign (0 < a)) else round_number (a / b))"
| "js_div NaN y = NaN"
| "js_div x NaN = NaN"
| "js_div (Fin a) PosInf = Fin 0"
| "js_div (Fin a) NegInf = Fin 0"
| "js_div PosInf (Fin b) = inf_of_sign (0 \<le> b)"
| "js_div NegInf (Fin b) = inf_of_sign (b < 0)"
| "js_div PosInf y = NaN"
| "js_div NegInf y = NaN"

fun js_lt :: "number \<Rightarrow> number \<Rightarrow> bool" where
  "js_lt (Fin a) (Fin b) \<longleftrightarrow> a < b"
| "js_lt NaN y \<longleftrightarrow> False"
| "js_lt x NaN \<longleftrightarrow> False"
| "js_lt PosInf y \<longleftrightarrow> False"
| "js_lt x NegInf \<longleftrightarrow> False"
| "js_lt NegInf y \<longleftrightarrow> True"
| "js_lt x PosInf \<longleftrightarrow> True"

fun js_le :: "number \<Rightarrow> number \<Rightarrow> bool" where
  "js_le (Fin a) (Fin b) \<longleftrightarrow> a \<le> b"
| "js_le NaN y \<longleftrightarrow> False"
| "js_le x NaN \<longleftrightarrow> False"
| "js_le NegInf y \<longleftrightarrow> True"
| "js_le x PosInf \<longleftrightarrow> True"
| "js_le PosInf y \<longleftrightarrow> False"
| "js_le x NegInf \<longleftrightarrow> False"

definition js_gt :: "number \<Rightarrow> number \<Rightarrow> bool" where
  "js_gt x y = js_lt y x"

definition js_ge :: "number \<Rightarrow> number \<Rightarrow> bool" where
  "js_ge x y = js_le y x"

subsection \<open>The hover callback in double precision\<close>

text \<open>
  The same callback, line by line, with every operator the double-precision one. The
  literals \<open>0.5\<close>, \<open>1\<close>, \<open>2\<close> and \<open>0\<close> are doubles.
\<close>

record params_js =
  left_js :: number
  width_js :: number

text \<open>
  Modelled from the spec: \<open>sentry/utils/number/divide\<close> is not among the sources; the
  spec gives \<open>percentComplete = currentTimeMs / durationMs\<close>, here the double-precision
  quotient.
\<close>

definition divide_js :: "number \<Rightarrow> number \<Rightarrow> number" where
  "divide_js numerator denominator = js_div numerator denominator"

definition initialTranslate_js :: "number \<Rightarrow> number" where
  "initialTranslate_js scale = js_div (Fin 0.5) scale"

definition percentComplete_js :: "number \<Rightarrow> number \<Rightarrow> number" where
  "percentComplete_js currentTime durationMs = divide_js currentTime durationMs"

definition starting_js :: "number \<Rightarrow> number \<Rightarrow> number \<Rightarrow> bool" where
  "starting_js scale currentTime durationMs \<longleftrightarrow>
     js_lt (percentComplete_js currentTime durationMs) (initialTranslate_js scale)"

definition ending_js :: "number \<Rightarrow> number \<Rightarrow> number \<Rightarrow> bool" where
  "ending_js scale currentTime durationMs \<longleftrightarrow>
     js_gt (js_add (percentComplete_js currentTime durationMs) (initialTranslate_js scale))
       (Fin 1)"

definition time_js :: "params_js \<Rightarrow> number \<Rightarrow> number \<Rightarrow> number \<Rightarrow> number" where
  "time_js p durationMs currentTime scale =
     (let percent = js_div (left_js p) (width_js p) in
      if starting_js scale currentTime durationMs
        then js_div (js_mul percent durationMs) scale
      else if ending_js scale currentTime durationMs
        then js_add (js_div (js_mul percent durationMs) scale)
               (js_mul (js_sub (Fin 1) (js_div (Fin 1) scale)) durationMs)
      else (let percent = js_div (js_sub (left_js p) (js_div (width_js p) (Fin 2))) (width_js p) in
            js_add currentTime (js_div (js_mul percent durationMs) scale)))"

definition handlePositionChange_js ::
    "params_js option \<Rightarrow> number option \<Rightarrow> number \<Rightarrow> number \<Rightarrow> number option" where
  "handlePositionChange_js params durationMs currentTime scale =
     (case params of
        None \<Rightarrow> None
      | Some p \<Rightarrow>
          (case durationMs of
             None \<Rightarrow> None
           | Some d \<Rightarrow>
               if js_ge (left_js p) (Fin 0) then Some (time_js p d currentTime scale)
               else None))"

subsection \<open>Playback controls\<close>

text \<open>A replay frame; only \<open>offsetMs\<close> is read by the controls.\<close>

record frame =
  offsetMs :: real
  kind :: string

text \<open>The part of the replay reader the controls call: \<open>getChapterFrames()\<close>.\<close>

record replay_reader =
  getChapterFrames :: "frame list"

datatype clock_status = Paused | Playing | Ended

text \<open>
  Modelled from the spec: the replay context that owns \<open>currentTime\<close> and
  \<open>setCurrentTime\<close> (\<open>sentry/components/replays/replayContext\<close>) is not among the sources.
  The state is the Playback Clock of section 4.5 together with the duration of its
  recording.
\<close>

record playback_clock =
  recordingDurationMs :: real
  currentTimeMs :: real
  status :: clock_status
  speed :: real

text \<open>
  Modelled from the spec: \<open>setCurrentTime\<close> is the clock's \<open>seek(ms)\<close>, which "clamps
  \<open>ms\<close> to \<open>[0, durationMs]\<close>, sets \<open>currentTimeMs\<close>, does not change play/pause state".
\<close>

definition setCurrentTime :: "real \<Rightarrow> playback_clock \<Rightarrow> playback_clock" where
  "setCurrentTime ms clk = clk\<lparr>currentTimeMs := max 0 (min ms (recordingDurationMs clk))\<rparr>"

text \<open>
  Modelled from the spec: \<open>getNextReplayFrame\<close> (\<open>sentry/utils/replays/getReplayEvent\<close>) is
  not among the sources. Section 4.2: the "smallest-offset frame with
  \<open>offsetMs > afterOffsetMs\<close>", ties resolved by stream order, \<open>None\<close> when there is none.
  The call site passes only \<open>frames\<close> and \<open>targetOffsetMs\<close>, so the function cannot compare
  the query with the duration.
\<close>

definition getNextReplayFrame :: "frame list \<Rightarrow> real \<Rightarrow> frame option" where
  "getNextReplayFrame frames targetOffsetMs =
     (case filter (\<lambda>f. targetOffsetMs < offsetMs f) frames of
        [] \<Rightarrow> None
      | f # fs \<Rightarrow>
          Some (fold (\<lambda>g found. if offsetMs g < offsetMs found then g else found) fs f))"

definition SECOND :: real where
  "SECOND = 1000"

text \<open>
  The \<open>onClick\<close> of the "Rewind 10s" button:
  \<open>setCurrentTime(currentTime - 10 * SECOND)\<close>.
\<close>

definition rewind10_onClick :: "playback_clock \<Rightarrow> playback_clock" where
  "rewind10_onClick clk = setCurrentTime (currentTimeMs clk - 10 * SECOND) clk"

text \<open>
  The \<open>onClick\<close> of the "Next breadcrumb" button: return when there is no replay; look up
  the next chapter frame after \<open>currentTime\<close>; seek to it when there is one.
\<close>

definition nextBreadcrumb_onClick ::
    "replay_reader option \<Rightarrow> playback_clock \<Rightarrow> playback_clock" where
  "nextBreadcrumb_onClick replay clk =
     (case replay of
        None \<Rightarrow> clk
      | Some r \<Rightarrow>
          (case getNextReplayFrame (getChapterFrames r) (currentTimeMs clk) of
             None \<Rightarrow> clk
           | Some next \<Rightarrow> setCurrentTime (offsetMs next) clk))"

text \<open>The clock after each of \<open>n\<close> successive clicks on "Next breadcrumb".\<close>

fun clicks :: "nat \<Rightarrow> replay_reader option \<Rightarrow> playback_clock \<Rightarrow> playback_clock list" where
  "clicks 0 replay clk = []"
| "clicks (Suc n) replay clk =
     (let clk' = nextBreadcrumb_onClick replay clk in clk' # clicks n replay clk')"

text \<open>A breadcrumb frame at a given offset, for the concrete recordings below.\<close>

definition frameAt :: "real \<Rightarrow> frame" where
  "frameAt t = \<lparr>offsetMs = t, kind = ''breadcrumb''\<rparr>"

section \<open>Properties of the hover time\<close>

lemmas hover_defs = handlePositionChange_def time_def starting_def ending_def
  percentComplete_def initialTranslate_def divide_number_def

lemma hover_time_formula:
  "0 \<le> l \<Longrightarrow>
   handlePositionChange (Some \<lparr>left = l, width = w\<rparr>) (Some d) c z
     = Some (spec_pixelToTime l w z c d)"
  by (simp add: hover_defs spec_pixelToTime_def Let_def)

lemma hover_time_outside:
  "l < 0 \<Longrightarrow> handlePositionChange (Some \<lparr>left = l, width = w\<rparr>) dur c z = None"
  by (simp add: handlePositionChange_def split: option.splits)


text \<open>At zoom 1 the branch is decided by the half of the recording the playhead is in.\<close>

lemma starting_at_zoom_1: "0 < d \<Longrightarrow> starting 1 c d \<longleftrightarrow> c < d / 2"
  by (simp add: starting_def percentComplete_def initialTranslate_def divide_number_def
      field_simps)

lemma ending_at_zoom_1: "0 < d \<Longrightarrow> ending 1 c d \<longleftrightarrow> d / 2 < c"
  by (simp add: ending_def percentComplete_def initialTranslate_def divide_number_def
      field_simps)

text \<open>
  C1. For every zoom \<open>\<ge> 1\<close>, width \<open>> 0\<close>, duration \<open>> 0\<close> and current time in
  \<open>[0, durationMs]\<close>, the hover time computed for a pixel position \<open>pixelX \<ge> 0\<close> is exactly
  the three-branch formula of the specification; for \<open>pixelX < 0\<close> the guard
  \<open>left >= 0\<close> makes the hover time undefined instead.
\<close>

theorem handlePositionChange_three_branch_formula:
  assumes "1 \<le> z" "0 < w" "0 < d" "0 \<le> c" "c \<le> d"
  shows "handlePositionChange (Some \<lparr>left = pixelX, width = w\<rparr>) (Some d) c z
           = (if 0 \<le> pixelX then Some (spec_pixelToTime pixelX w z c d) else None)"
  by (simp add: hover_time_formula hover_time_outside)

text \<open>
  The formula at work in the middle of a recording zoomed twice (mid branch), and the
  undefined hover time left of the element.
\<close>

theorem handlePositionChange_three_branch_formula_witness:
  "handlePositionChange (Some \<lparr>left = 25, width = 100\<rparr>) (Some 60000) 30000 2 = Some 22500
   \<and> handlePositionChange (Some \<lparr>left = -1, width = 100\<rparr>) (Some 60000) 30000 2 = None"
  using handlePositionChange_three_branch_formula[of 2 100 60000 30000 25]
    handlePositionChange_three_branch_formula[of 2 100 60000 30000 "-1"]
  by (simp add: spec_pixelToTime_def)

text \<open>
  C1 as stated, for every pixel position, fails at \<open>pixelX = -1\<close>: the formula gives
  \<open>-600\<close>, the callback stores \<open>undefined\<close>.
\<close>

theorem three_branch_formula_negative_pixel_counterexample:
  "spec_pixelToTime (-1) 100 1 30000 60000 = -600
   \<and> handlePositionChange (Some \<lparr>left = -1, width = 100\<rparr>) (Some 60000) 30000 1
       \<noteq> Some (spec_pixelToTime (-1) 100 1 30000 60000)"
  by (simp add: spec_pixelToTime_def hover_defs)





text \<open>
  C7. A zoom below 1 is not rejected: for every non-zero zoom \<open>< 1\<close> (and \<open>left \<ge> 0\<close>,
  width and duration positive) the callback stores the number given by the same
  three-branch formula. No validation of \<open>scale\<close> and no \<open>InvalidZoom\<close> exist in the hook.
\<close>

theorem zoom_below_1_not_rejected:
  assumes "z < 1" "z \<noteq> 0" "0 < w" "0 < d" "0 \<le> l"
  shows "handlePositionChange (Some \<lparr>left = l, width = w\<rparr>) (Some d) c z
           = Some (spec_pixelToTime l w z c d)"
  using assms(5) by (rule hover_time_formula)

theorem zoom_below_1_not_rejected_witness:
  "handlePositionChange (Some \<lparr>left = 50, width = 100\<rparr>) (Some 60000) 45000 (1 / 4)
     = Some 120000"
  using zoom_below_1_not_rejected[of "1 / 4" 100 60000 50 45000]
  by (simp add: spec_pixelToTime_def)

text \<open>
  C7 as stated fails at zoom \<open>0.5\<close>: the callback stores the number \<open>60000\<close>.
\<close>

theorem zoom_below_1_counterexample:
  "handlePositionChange (Some \<lparr>left = 50, width = 100\<rparr>) (Some 60000) 30000 0.5 = Some 60000"
  by (simp add: hover_defs)

text \<open>
  C8. The callback degrades to an undefined hover time, on every input without raising
  (it is a total function with no failure outcome): when the position is missing, when no
  recording is loaded (\<open>durationMs\<close> undefined), and when the pointer is left of the element
  (\<open>left < 0\<close>). For a pointer position with \<open>left \<ge> 0\<close> and a loaded recording the hover
  time is defined.
\<close>

theorem hover_time_degrades_gracefully:
  "handlePositionChange None dur c z = None
   \<and> handlePositionChange params None c z = None
   \<and> (left p < 0 \<longrightarrow> handlePositionChange (Some p) dur c z = None)
   \<and> (0 \<le> left p \<longrightarrow> (\<exists>t. handlePositionChange (Some p) (Some d) c z = Some t))"
  by (simp add: handlePositionChange_def split: option.splits)

theorem hover_time_degrades_gracefully_witness:
  "handlePositionChange (Some \<lparr>left = 10, width = 100\<rparr>) None 0 1 = None
   \<and> handlePositionChange (Some \<lparr>left = -5, width = 100\<rparr>) (Some 60000) 0 1 = None
   \<and> (\<exists>t. handlePositionChange (Some \<lparr>left = 10, width = 100\<rparr>) (Some 60000) 0 1 = Some t)"
  using hover_time_degrades_gracefully
          [of "Some 60000" 0 1 "Some \<lparr>left = 10, width = 100\<rparr>" "\<lparr>left = -5, width = 100\<rparr>" 60000]
        hover_time_degrades_gracefully
          [of "Some 60000" 0 1 "Some \<lparr>left = 10, width = 100\<rparr>" "\<lparr>left = 10, width = 100\<rparr>" 60000]
  by simp

section \<open>Properties of double-precision rounding\<close>

subsection \<open>Powers of two and the binary exponent\<close>

lemma pow2_powr: "pow2 k = 2 powr (of_int k)"
proof (cases "0 \<le> k")
  case True
  then have "2 powr (of_int k) = (2::real) ^ nat k"
    by (metis of_int_of_nat_eq nat_0_le powr_realpow zero_less_numeral of_nat_nat)
  then show ?thesis using True by (simp add: pow2_def)
next
  case False
  then have k: "of_int k = - real (nat (- k))" by simp
  have "2 powr (of_int k) = 1 / (2::real) ^ nat (- k)"
    unfolding k by (simp add: powr_minus powr_realpow field_simps)
  then show ?thesis using False by (simp add: pow2_def)
qed

lemma pow2_pos [simp]: "0 < pow2 k"
  by (simp add: pow2_powr)

lemma pow2_add: "pow2 (a + b) = pow2 a * pow2 b"
  by (simp add: pow2_powr powr_add)

lemma pow2_0 [simp]: "pow2 0 = 1"
  by (simp add: pow2_def)

lemma pow2_1 [simp]: "pow2 1 = 2"
  by (simp add: pow2_def)

lemma pow2_Suc: "pow2 (k + 1) = 2 * pow2 k"
  by (simp add: pow2_add)

lemma pow2_le_iff [simp]: "pow2 a \<le> pow2 b \<longleftrightarrow> a \<le> b"
  by (simp add: pow2_powr)

lemma pow2_less_iff [simp]: "pow2 a < pow2 b \<longleftrightarrow> a < b"
  by (simp add: pow2_powr)

lemma pow2_diff: "pow2 (a - b) = pow2 a / pow2 b"
  by (simp add: pow2_powr powr_diff)

lemma pow2_nat: "pow2 (int n) = 2 ^ n"
  by (simp add: pow2_def)

lemma expo_small: "\<bar>x\<bar> < pow2 (-1022) \<Longrightarrow> expo x = -1022"
  by (simp add: expo_def)

lemma expo_normal:
  assumes "pow2 (-1022) \<le> \<bar>x\<bar>"
  shows "pow2 (expo x) \<le> \<bar>x\<bar>" "-1022 \<le> expo x" "expo x \<le> 1023"
    "\<bar>x\<bar> < pow2 1024 \<Longrightarrow> \<bar>x\<bar> < pow2 (expo x + 1)"
proof -
  let ?S = "{k \<in> {-1022..1023}. pow2 k \<le> \<bar>x\<bar>}"
  have fin: "finite ?S" by (rule finite_subset[of _ "{-1022..1023}"]) auto
  have ne: "-1022 \<in> ?S" using assms by simp
  then have nonempty: "?S \<noteq> {}" by blast
  have e: "expo x = Max ?S" using assms by (simp add: expo_def)
  have mem: "Max ?S \<in> ?S" using Max_in[OF fin nonempty] .
  then show "pow2 (expo x) \<le> \<bar>x\<bar>" "-1022 \<le> expo x" "expo x \<le> 1023"
    unfolding e by auto
  show "\<bar>x\<bar> < pow2 (expo x + 1)" if up: "\<bar>x\<bar> < pow2 1024"
  proof (rule ccontr)
    assume "\<not> \<bar>x\<bar> < pow2 (expo x + 1)"
    then have le: "pow2 (Max ?S + 1) \<le> \<bar>x\<bar>" unfolding e by simp
    have "Max ?S + 1 \<le> 1023"
    proof (rule ccontr)
      assume "\<not> Max ?S + 1 \<le> 1023"
      then have "Max ?S = 1023" using mem by auto
      then show False using le up by simp
    qed
    then have "Max ?S + 1 \<in> ?S" using le mem by auto
    then have "Max ?S + 1 \<le> Max ?S" using Max_ge[OF fin] by blast
    then show False by simp
  qed
qed

lemma expo_unique:
  assumes "-1022 \<le> e" "e \<le> 1023" "pow2 e \<le> \<bar>x\<bar>" "\<bar>x\<bar> < pow2 (e + 1)"
  shows "expo x = e"
proof -
  have n: "pow2 (-1022) \<le> \<bar>x\<bar>"
    using assms(1,3) by (meson order_trans pow2_le_iff)
  have "pow2 (e + 1) \<le> pow2 1024" using assms(2) by simp
  then have up: "\<bar>x\<bar> < pow2 1024" using assms(4) by linarith
  from expo_normal[OF n] up
  have a: "pow2 (expo x) \<le> \<bar>x\<bar>" and b: "\<bar>x\<bar> < pow2 (expo x + 1)" by auto
  have "pow2 e < pow2 (expo x + 1)" using assms(3) b by linarith
  moreover have "pow2 (expo x) < pow2 (e + 1)" using assms(4) a by linarith
  ultimately show ?thesis by simp
qed

lemma expo_minus [simp]: "expo (- x) = expo x"
  by (simp add: expo_def)

lemma expo_range: "-1022 \<le> expo x \<and> expo x \<le> 1023"
proof (cases "\<bar>x\<bar> < pow2 (-1022)")
  case True then show ?thesis by (simp add: expo_small)
next
  case False
  then show ?thesis using expo_normal(2,3)[of x] by simp
qed

lemma expo_mono:
  assumes "\<bar>x\<bar> \<le> \<bar>y\<bar>"
  shows "expo x \<le> expo y"
proof (cases "\<bar>x\<bar> < pow2 (-1022)")
  case True
  then show ?thesis using expo_range[of y] by (simp add: expo_small)
next
  case False
  then have nx: "pow2 (-1022) \<le> \<bar>x\<bar>" by simp
  then have ny: "pow2 (-1022) \<le> \<bar>y\<bar>" using assms by linarith
  let ?S = "\<lambda>z. {k \<in> {-1022..1023}. pow2 k \<le> \<bar>z\<bar>}"
  have sub: "?S x \<subseteq> ?S y" using assms by auto
  have "Max (?S x) \<le> Max (?S y)"
  proof (rule Max_mono[OF sub])
    have "-1022 \<in> ?S x" using nx by simp
    then show "?S x \<noteq> {}" by blast
    show "finite (?S y)" by (rule finite_subset[of _ "{-1022..1023}"]) auto
  qed
  then show ?thesis using nx ny by (simp add: expo_def)
qed

subsection \<open>Rounding to the nearest double is monotone\<close>

lemma rne_int [simp]: "roundTiesToEven (of_int n) = n"
  by (simp add: roundTiesToEven_def)

lemma rne_0 [simp]: "roundTiesToEven 0 = 0"
  by (simp add: roundTiesToEven_def)

lemma rne_floor_bounds: "\<lfloor>x\<rfloor> \<le> roundTiesToEven x" "roundTiesToEven x \<le> \<lfloor>x\<rfloor> + 1"
  by (simp_all add: roundTiesToEven_def Let_def)

lemma rne_mono:
  assumes "x \<le> y"
  shows "roundTiesToEven x \<le> roundTiesToEven y"
proof (cases "\<lfloor>x\<rfloor> = \<lfloor>y\<rfloor>")
  case True
  then show ?thesis using assms by (auto simp: roundTiesToEven_def Let_def)
next
  case False
  then have "\<lfloor>x\<rfloor> < \<lfloor>y\<rfloor>" using floor_mono[OF assms] by linarith
  then show ?thesis using rne_floor_bounds(2)[of x] rne_floor_bounds(1)[of y] by linarith
qed

lemma rne_minus: "roundTiesToEven (- x) = - roundTiesToEven x"
proof (cases "x \<in> \<int>")
  case True
  then obtain n where n: "x = of_int n" by (auto elim: Ints_cases)
  have "roundTiesToEven (of_int (- n)) = - n" by (rule rne_int)
  then show ?thesis unfolding n by simp
next
  case False
  have "of_int \<lfloor>x\<rfloor> \<noteq> x" using False by (metis Ints_of_int)
  then have frac: "of_int \<lfloor>x\<rfloor> < x" using of_int_floor_le[of x] by linarith
  have up: "x < of_int \<lfloor>x\<rfloor> + 1" by linarith
  have cast: "real_of_int (- \<lfloor>x\<rfloor> - 1) = - real_of_int \<lfloor>x\<rfloor> - 1" by simp
  have lo: "real_of_int (- \<lfloor>x\<rfloor> - 1) \<le> - x" unfolding cast using up by linarith
  have hi: "- x < real_of_int (- \<lfloor>x\<rfloor> - 1) + 1" unfolding cast using frac by linarith
  have fl: "\<lfloor>- x\<rfloor> = - \<lfloor>x\<rfloor> - 1"
    using lo hi by (rule floor_unique)
  show ?thesis
    unfolding roundTiesToEven_def Let_def fl using frac up by (auto simp: field_simps)
qed

lemma rne_error: "\<bar>of_int (roundTiesToEven x) - x\<bar> \<le> 1 / 2"
proof -
  have "of_int \<lfloor>x\<rfloor> \<le> x" "x < of_int \<lfloor>x\<rfloor> + 1" by linarith+
  then show ?thesis by (auto simp: roundTiesToEven_def Let_def abs_le_iff)
qed

lemma ulp_pos [simp]: "0 < ulp x"
  by (simp add: ulp_def)

lemma ulp_minus [simp]: "ulp (- x) = ulp x"
  by (simp add: ulp_def)

lemma roundToDouble_minus: "roundToDouble (- x) = - roundToDouble x"
  by (simp add: roundToDouble_def rne_minus)

lemma roundToDouble_0 [simp]: "roundToDouble 0 = 0"
  by (simp add: roundToDouble_def roundTiesToEven_def)

lemma expo_large: "pow2 1024 \<le> \<bar>x\<bar> \<Longrightarrow> expo x = 1023"
proof -
  assume a: "pow2 1024 \<le> \<bar>x\<bar>"
  have "pow2 (-1022) \<le> pow2 1024" by simp
  then have n: "pow2 (-1022) \<le> \<bar>x\<bar>" using a by linarith
  have "pow2 1023 \<le> pow2 1024" by simp
  then have m: "pow2 1023 \<le> \<bar>x\<bar>" using a by linarith
  let ?S = "{k \<in> {-1022..1023}. pow2 k \<le> \<bar>x\<bar>}"
  have fin: "finite ?S" by (rule finite_subset[of _ "{-1022..1023}"]) auto
  have "1023 \<in> ?S" using m by simp
  then have "1023 \<le> Max ?S" using Max_ge[OF fin] by blast
  then show ?thesis using expo_normal(3)[OF n] n by (simp add: expo_def)
qed

lemma roundToDouble_ge_pow2:
  assumes "pow2 (-1022) \<le> x"
  shows "pow2 (expo x) \<le> roundToDouble x"
proof -
  have x0: "0 \<le> x" using assms pow2_pos[of "-1022"] by linarith
  have le: "pow2 (expo x) \<le> x" using expo_normal(1)[of x] assms x0 by simp
  have q: "pow2 (expo x) = of_int (2 ^ 52) * ulp x"
    using pow2_diff[of "expo x" 52] by (simp add: ulp_def pow2_def)
  have "of_int (2 ^ 52) \<le> x / ulp x"
    using le q by (simp add: field_simps)
  then have "roundTiesToEven (of_int (2 ^ 52)) \<le> roundTiesToEven (x / ulp x)"
    by (rule rne_mono)
  then have "(2 ^ 52 :: int) \<le> roundTiesToEven (x / ulp x)"
    unfolding rne_int .
  then have "of_int (2 ^ 52) * ulp x \<le> of_int (roundTiesToEven (x / ulp x)) * ulp x"
    by (intro mult_right_mono) (simp_all add: less_imp_le del: of_int_power)
  then show ?thesis unfolding q roundToDouble_def .
qed

lemma roundToDouble_le_pow2:
  assumes "pow2 (-1022) \<le> x" "x < pow2 1024"
  shows "roundToDouble x \<le> pow2 (expo x + 1)"
proof -
  have x0: "0 \<le> x" using assms pow2_pos[of "-1022"] by linarith
  have lt: "x < pow2 (expo x + 1)" using expo_normal(4)[of x] assms x0 by simp
  have q: "pow2 (expo x + 1) = of_int (2 ^ 53) * ulp x"
    using pow2_diff[of "expo x + 1" 53] by (simp add: ulp_def pow2_def)
  have "x / ulp x \<le> of_int (2 ^ 53)"
    using lt q by (simp add: field_simps)
  then have "roundTiesToEven (x / ulp x) \<le> roundTiesToEven (of_int (2 ^ 53))"
    by (rule rne_mono)
  then have "roundTiesToEven (x / ulp x) \<le> (2 ^ 53 :: int)"
    unfolding rne_int .
  then have "of_int (roundTiesToEven (x / ulp x)) * ulp x \<le> of_int (2 ^ 53) * ulp x"
    by (intro mult_right_mono) (simp_all add: less_imp_le del: of_int_power)
  then show ?thesis unfolding q roundToDouble_def .
qed

lemma roundToDouble_nonneg:
  assumes "0 \<le> x"
  shows "0 \<le> roundToDouble x"
proof -
  have "0 \<le> x / ulp x" using assms by (simp add: less_imp_le)
  then have "roundTiesToEven (of_int 0) \<le> roundTiesToEven (x / ulp x)"
    by (intro rne_mono) simp
  then have "0 \<le> roundTiesToEven (x / ulp x)" by simp
  then show ?thesis by (simp add: roundToDouble_def less_imp_le)
qed

lemma roundToDouble_subnormal_le:
  assumes "0 \<le> x" "x < pow2 (-1022)"
  shows "roundToDouble x \<le> pow2 (-1022)"
proof -
  have e: "expo x = -1022" using assms by (simp add: expo_small)
  have q: "pow2 (-1022) = of_int (2 ^ 52) * ulp x"
    using pow2_diff[of "-1022" 52] by (simp add: ulp_def e pow2_def)
  have "x / ulp x \<le> of_int (2 ^ 52)"
    using assms(2) q by (simp add: field_simps)
  then have "roundTiesToEven (x / ulp x) \<le> roundTiesToEven (of_int (2 ^ 52))"
    by (rule rne_mono)
  then have "roundTiesToEven (x / ulp x) \<le> (2 ^ 52 :: int)"
    unfolding rne_int .
  then have "of_int (roundTiesToEven (x / ulp x)) * ulp x \<le> of_int (2 ^ 52) * ulp x"
    by (intro mult_right_mono) (simp_all add: less_imp_le del: of_int_power)
  then show ?thesis unfolding q roundToDouble_def .
qed

lemma roundToDouble_mono_nonneg:
  assumes "0 \<le> x" "x \<le> y"
  shows "roundToDouble x \<le> roundToDouble y"
proof (cases "expo x = expo y")
  case True
  then have u: "ulp x = ulp y" by (simp add: ulp_def)
  have "x / ulp y \<le> y / ulp y" using assms(2) by (simp add: divide_right_mono less_imp_le)
  then have "roundTiesToEven (x / ulp y) \<le> roundTiesToEven (y / ulp y)" by (rule rne_mono)
  then show ?thesis
    unfolding roundToDouble_def u by (intro mult_right_mono) (simp_all add: less_imp_le)
next
  case False
  have "\<bar>x\<bar> \<le> \<bar>y\<bar>" using assms by simp
  then have lt: "expo x < expo y" using expo_mono[of x y] False by linarith
  have ynorm: "pow2 (-1022) \<le> y"
  proof (rule ccontr)
    assume "\<not> pow2 (-1022) \<le> y"
    then have "expo y = -1022" using assms by (simp add: expo_small)
    then show False using lt expo_range[of x] by linarith
  qed
  have ylow: "pow2 (expo y) \<le> roundToDouble y" using roundToDouble_ge_pow2[OF ynorm] .
  have step: "pow2 (expo x + 1) \<le> pow2 (expo y)" using lt by simp
  show ?thesis
  proof (cases "pow2 (-1022) \<le> x")
    case True
    have "x < pow2 1024"
    proof (rule ccontr)
      assume "\<not> x < pow2 1024"
      then have "expo x = 1023" using expo_large[of x] assms by simp
      then show False using lt expo_range[of y] by linarith
    qed
    from roundToDouble_le_pow2[OF True this] step ylow show ?thesis by linarith
  next
    case False
    then have "roundToDouble x \<le> pow2 (-1022)"
      using roundToDouble_subnormal_le[of x] assms by simp
    moreover have "pow2 (-1022) \<le> pow2 (expo y)" using expo_range[of y] by simp
    ultimately show ?thesis using ylow by linarith
  qed
qed

lemma roundToDouble_mono:
  assumes "x \<le> y"
  shows "roundToDouble x \<le> roundToDouble y"
proof -
  consider (pos) "0 \<le> x" | (neg) "y \<le> 0" | (mixed) "x < 0" "0 < y" by linarith
  then show ?thesis
  proof cases
    case pos
    then show ?thesis using assms by (rule roundToDouble_mono_nonneg)
  next
    case neg
    have "roundToDouble (- y) \<le> roundToDouble (- x)"
      using neg assms by (intro roundToDouble_mono_nonneg) simp_all
    then show ?thesis by (simp add: roundToDouble_minus)
  next
    case mixed
    have "0 \<le> roundToDouble (- x)" using mixed by (intro roundToDouble_nonneg) simp
    then have "roundToDouble x \<le> 0" by (simp add: roundToDouble_minus)
    moreover have "0 \<le> roundToDouble y" using mixed by (intro roundToDouble_nonneg) simp
    ultimately show ?thesis by linarith
  qed
qed

lemma roundToDouble_eval:
  assumes "-1022 \<le> e" "e \<le> 1023" "pow2 e \<le> \<bar>x\<bar>" "\<bar>x\<bar> < pow2 (e + 1)"
  shows "roundToDouble x = of_int (roundTiesToEven (x / pow2 (e - 52))) * pow2 (e - 52)"
  using expo_unique[OF assms] by (simp add: roundToDouble_def ulp_def)

subsection \<open>Rounded results, and the order of numbers\<close>

lemma threshold_pos: "0 < overflow_threshold"
proof -
  have "pow2 970 < pow2 1024" by simp
  then show ?thesis by (simp add: overflow_threshold_def)
qed

lemma js_le_refl_Fin [simp]: "js_le (Fin a) (Fin a)"
  by simp

lemma round_number_mono:
  assumes "x \<le> y"
  shows "js_le (round_number x) (round_number y)"
  using assms roundToDouble_mono[OF assms] threshold_pos
  by (auto simp: round_number_def)

lemma round_number_not_NaN [simp]: "round_number x \<noteq> NaN"
  by (simp add: round_number_def)

lemma round_number_0 [simp]: "round_number 0 = Fin 0"
  using threshold_pos by (simp add: round_number_def)

lemma is_double_0 [simp]: "is_double 0"
  by (simp add: is_double_def)

lemma is_double_minus [simp]: "is_double (- x) \<longleftrightarrow> is_double x"
  by (auto simp: is_double_def round_number_def roundToDouble_minus)

lemma round_number_between:
  assumes "is_double a" "is_double b" "a \<le> x" "x \<le> b"
  shows "\<exists>y. round_number x = Fin y \<and> a \<le> y \<and> y \<le> b"
proof -
  have lo: "js_le (Fin a) (round_number x)"
    using round_number_mono[OF assms(3)] assms(1) by (simp add: is_double_def)
  have hi: "js_le (round_number x) (Fin b)"
    using round_number_mono[OF assms(4)] assms(2) by (simp add: is_double_def)
  show ?thesis using lo hi by (cases "round_number x") auto
qed

lemma is_doubleI:
  assumes "-1022 \<le> e" "e \<le> 1022" "pow2 e \<le> \<bar>x\<bar>" "\<bar>x\<bar> < pow2 (e + 1)"
    and "x / pow2 (e - 52) = of_int m"
  shows "is_double x"
proof -
  have e': "e \<le> 1023" using assms(2) by simp
  have "pow2 (e - 52) \<noteq> 0" using pow2_pos[of "e - 52"] by linarith
  then have "x = of_int m * pow2 (e - 52)" using assms(5) by (simp add: field_simps)
  then have r: "roundToDouble x = x"
    using roundToDouble_eval[OF assms(1) e' assms(3,4)] assms(5) by simp
  have "pow2 (e + 1) \<le> pow2 1023" using assms(2) by simp
  moreover have "pow2 1023 < overflow_threshold"
  proof -
    have "pow2 1024 = 2 * pow2 1023" using pow2_Suc[of 1023] by simp
    moreover have "pow2 970 < pow2 1023" by simp
    ultimately show ?thesis by (simp add: overflow_threshold_def)
  qed
  ultimately have "\<bar>x\<bar> < overflow_threshold" using assms(4) by linarith
  then show ?thesis using r by (auto simp: is_double_def round_number_def)
qed

lemma is_double_1 [simp]: "is_double 1"
  by (rule is_doubleI[of 0 _ "2 ^ 52"]) (simp_all add: pow2_def)

lemma is_double_half [simp]: "is_double (1 / 2)"
  by (rule is_doubleI[of "-1" _ "2 ^ 52"]) (simp_all add: pow2_def)

lemma is_double_2 [simp]: "is_double 2"
  by (rule is_doubleI[of 1 _ "2 ^ 52"]) (simp_all add: pow2_def)

lemma js_le_trans: "js_le x y \<Longrightarrow> js_le y z \<Longrightarrow> js_le x z"
  by (cases x; cases y; cases z) auto

lemma js_div_mono:
  assumes "js_le x y" "0 < b"
  shows "js_le (js_div x (Fin b)) (js_div y (Fin b))"
proof (cases x; cases y)
  fix a c assume "x = Fin a" "y = Fin c"
  then show ?thesis using assms round_number_mono[of "a / b" "c / b"]
    by (simp add: divide_right_mono)
next
  fix a assume "x = Fin a" "y = PosInf"
  then show ?thesis using assms by (cases "round_number (a / b)") (auto simp: inf_of_sign_def)
next
  fix c assume "x = NegInf" "y = Fin c"
  then show ?thesis using assms by (cases "round_number (c / b)") (auto simp: inf_of_sign_def)
qed (use assms in \<open>auto simp: inf_of_sign_def\<close>)

lemma js_mul_mono:
  assumes "js_le x y" "0 < b"
  shows "js_le (js_mul x (Fin b)) (js_mul y (Fin b))"
proof (cases x; cases y)
  fix a c assume "x = Fin a" "y = Fin c"
  then show ?thesis using assms round_number_mono[of "a * b" "c * b"]
    by (simp add: mult_right_mono)
next
  fix a assume "x = Fin a" "y = PosInf"
  then show ?thesis using assms by (cases "round_number (a * b)") (auto simp: inf_of_sign_def)
next
  fix c assume "x = NegInf" "y = Fin c"
  then show ?thesis using assms by (cases "round_number (c * b)") (auto simp: inf_of_sign_def)
qed (use assms in \<open>auto simp: inf_of_sign_def\<close>)

lemma js_add_mono_left:
  assumes "js_le x y"
  shows "js_le (js_add x (Fin k)) (js_add y (Fin k))"
proof (cases x; cases y)
  fix a c assume "x = Fin a" "y = Fin c"
  then show ?thesis using assms round_number_mono[of "a + k" "c + k"] by simp
next
  fix a assume "x = Fin a" "y = PosInf"
  then show ?thesis using assms by (cases "round_number (a + k)") auto
next
  fix c assume "x = NegInf" "y = Fin c"
  then show ?thesis using assms by (cases "round_number (c + k)") auto
qed (use assms in auto)

lemma js_add_mono_right:
  assumes "js_le x y"
  shows "js_le (js_add (Fin k) x) (js_add (Fin k) y)"
proof (cases x; cases y)
  fix a c assume "x = Fin a" "y = Fin c"
  then show ?thesis using assms round_number_mono[of "k + a" "k + c"] by simp
next
  fix a assume "x = Fin a" "y = PosInf"
  then show ?thesis using assms by (cases "round_number (k + a)") auto
next
  fix c assume "x = NegInf" "y = Fin c"
  then show ?thesis using assms by (cases "round_number (k + c)") auto
qed (use assms in auto)

lemma js_sub_mono_left:
  assumes "js_le x y"
  shows "js_le (js_sub x (Fin k)) (js_sub y (Fin k))"
  unfolding js_sub_def js_neg.simps using assms by (rule js_add_mono_left)

lemma round_number_is_double [simp]: "is_double x \<Longrightarrow> round_number x = Fin x"
  by (simp add: is_double_def)

lemma round_number_eval:
  assumes "-1022 \<le> e" "e \<le> 1022" "pow2 e \<le> \<bar>x\<bar>" "\<bar>x\<bar> < pow2 (e + 1)"
    and "roundTiesToEven (x / pow2 (e - 52)) = m" "y = of_int m * pow2 (e - 52)"
  shows "round_number x = Fin y"
proof -
  have e': "e \<le> 1023" using assms(2) by simp
  have r: "roundToDouble x = y"
    using roundToDouble_eval[OF assms(1) e' assms(3,4)] assms(5,6) by simp
  have "pow2 (e + 1) \<le> pow2 1023" using assms(2) by simp
  moreover have "pow2 1023 < overflow_threshold"
  proof -
    have "pow2 1024 = 2 * pow2 1023" using pow2_Suc[of 1023] by simp
    moreover have "pow2 970 < pow2 1023" by simp
    ultimately show ?thesis by (simp add: overflow_threshold_def)
  qed
  ultimately have "\<bar>x\<bar> < overflow_threshold" using assms(4) by linarith
  then show ?thesis using r by (auto simp: round_number_def)
qed

subsection \<open>A rounded result is a double\<close>

lemma abs_pow2 [simp]: "\<bar>pow2 k\<bar> = pow2 k"
  using pow2_pos[of k] by linarith

lemma roundToDouble_multiple:
  assumes "expo x = e" "x = of_int n * pow2 (e - 52)"
  shows "roundToDouble x = x"
proof -
  have "pow2 (e - 52) \<noteq> 0" using pow2_pos[of "e - 52"] by linarith
  then have "x / pow2 (e - 52) = of_int n" using assms(2) by simp
  then show ?thesis using assms by (simp add: roundToDouble_def ulp_def)
qed

lemma of_int_le_pow53: "(n::int) \<le> 2 ^ 53 - 1 \<Longrightarrow> real_of_int n \<le> 2 ^ 53 - 1"
proof -
  assume "n \<le> 2 ^ 53 - 1"
  then have "real_of_int n \<le> real_of_int (2 ^ 53 - 1)" by (rule of_int_le_iff[THEN iffD2])
  then show ?thesis by simp
qed

lemma pow2_1024_eq: "(2 ^ 53 :: real) * pow2 971 = pow2 1024"
proof -
  have "pow2 53 = 2 ^ 53" by (simp add: pow2_def)
  then show ?thesis using pow2_add[of 53 971] by simp
qed

lemma divide_less_top: "0 < q \<Longrightarrow> y < (2 ^ 53 - 1 / 2) * q \<Longrightarrow> y / q < 2 ^ 53 - 1 / 2"
  for q y :: real
  by (simp add: pos_divide_less_eq)

lemma threshold_eq: "overflow_threshold = (2 ^ 53 - 1 / 2) * pow2 971"
proof -
  have b: "pow2 971 = 2 * pow2 970" using pow2_Suc[of 970] by simp
  have "(2 ^ 53 - 1 / 2) * pow2 971 = 2 ^ 53 * pow2 971 - pow2 971 / 2"
    by (simp add: algebra_simps)
  also have "\<dots> = pow2 1024 - pow2 970" unfolding pow2_1024_eq using b by simp
  finally show ?thesis by (simp add: overflow_threshold_def)
qed

lemma pow2_1023_less_threshold: "pow2 1023 < overflow_threshold"
proof -
  have "pow2 1024 = 2 * pow2 1023" using pow2_Suc[of 1023] by simp
  moreover have "pow2 970 < pow2 1023" by simp
  ultimately show ?thesis by (simp add: overflow_threshold_def)
qed

lemma threshold_less_pow2_1024: "overflow_threshold < pow2 1024"
  by (simp add: overflow_threshold_def)

lemma rne_below_half:
  assumes "x < of_int N - 1 / 2"
  shows "roundTiesToEven x \<le> N - 1"
proof -
  have "of_int \<lfloor>x\<rfloor> \<le> x" by simp
  then have "real_of_int \<lfloor>x\<rfloor> < real_of_int N" using assms by linarith
  then have fl: "\<lfloor>x\<rfloor> \<le> N - 1" by simp
  show ?thesis
  proof (cases "\<lfloor>x\<rfloor> = N - 1")
    case True
    then have "x - of_int \<lfloor>x\<rfloor> < 1 / 2" using assms by simp
    then show ?thesis using True by (simp add: roundTiesToEven_def Let_def)
  next
    case False
    then have "\<lfloor>x\<rfloor> + 1 \<le> N - 1" using fl by linarith
    then show ?thesis using rne_floor_bounds(2)[of x] by linarith
  qed
qed

lemma roundToDouble_fixed_nonneg:
  assumes "0 \<le> y" "y < overflow_threshold"
  shows "roundToDouble (roundToDouble y) = roundToDouble y \<and> roundToDouble y < overflow_threshold"
proof -
  define e where "e = expo y"
  define q where "q = pow2 (e - 52)"
  define n where "n = roundTiesToEven (y / q)"
  define x where "x = roundToDouble y"
  have x: "x = of_int n * q" by (simp add: x_def n_def q_def e_def roundToDouble_def ulp_def)
  have qpos: "0 < q" by (simp add: q_def)
  have y1024: "y < pow2 1024" using assms(2) threshold_less_pow2_1024 by linarith
  have x0: "0 \<le> x" unfolding x_def using assms(1) by (rule roundToDouble_nonneg)
  have er: "-1022 \<le> e" "e \<le> 1023" using expo_range[of y] by (simp_all add: e_def)
  show ?thesis
  proof (cases "y < pow2 (-1022)")
    case True
    then have e: "e = -1022" using assms(1) by (simp add: e_def expo_small)
    have xle: "x \<le> pow2 (-1022)"
      unfolding x_def using assms(1) True by (rule roundToDouble_subnormal_le)
    have "expo x = -1022"
    proof (cases "x < pow2 (-1022)")
      case True then show ?thesis using x0 by (simp add: expo_small)
    next
      case False
      then have "x = pow2 (-1022)" using xle by simp
      then show ?thesis by (intro expo_unique) simp_all
    qed
    then have "roundToDouble x = x" using x e by (intro roundToDouble_multiple[of x e n]) (simp_all add: q_def)
    moreover have "pow2 (-1022) < pow2 1023" by simp
    ultimately show ?thesis using xle pow2_1023_less_threshold unfolding x_def by linarith
  next
    case False
    then have norm: "pow2 (-1022) \<le> y" by simp
    have lo: "pow2 e \<le> x"
      unfolding x_def e_def using norm by (rule roundToDouble_ge_pow2)
    have hi: "x \<le> pow2 (e + 1)"
      unfolding x_def e_def using norm y1024 by (rule roundToDouble_le_pow2)
    have "\<bar>x\<bar> = x" using x0 by simp
    show ?thesis
    proof (cases "x < pow2 (e + 1)")
      case True
      have ex: "expo x = e" using er lo True x0 by (intro expo_unique) simp_all
      have fixd: "roundToDouble x = x" using ex x by (intro roundToDouble_multiple[of x e n]) (simp_all add: q_def)
      have "x < overflow_threshold"
      proof (cases "e = 1023")
        case True
        have qe: "q = pow2 971" using True by (simp add: q_def)
        have "y < (2 ^ 53 - 1 / 2) * q" using assms(2) unfolding threshold_eq qe .
        then have "y / q < 2 ^ 53 - 1 / 2" using qpos by (intro divide_less_top)
        then have "y / q < of_int (2 ^ 53) - 1 / 2" by simp
        then have "n \<le> 2 ^ 53 - 1" unfolding n_def by (rule rne_below_half)
        then have "real_of_int n \<le> 2 ^ 53 - 1" by (rule of_int_le_pow53)
        then have "x \<le> (2 ^ 53 - 1) * q" unfolding x using qpos by (intro mult_right_mono) simp_all
        also have "\<dots> < (2 ^ 53 - 1 / 2) * q" using qpos by (intro mult_strict_right_mono) simp_all
        finally show ?thesis unfolding threshold_eq qe .
      next
        case False
        then have "e + 1 \<le> 1023" using er by simp
        then have "pow2 (e + 1) \<le> pow2 1023" by simp
        then show ?thesis using True pow2_1023_less_threshold by linarith
      qed
      then show ?thesis using fixd unfolding x_def by simp
    next
      case False
      then have xe: "x = pow2 (e + 1)" using hi by simp
      have ne: "e \<noteq> 1023"
      proof
        assume e1023: "e = 1023"
        have qe: "q = pow2 971" using e1023 by (simp add: q_def)
        have "y < (2 ^ 53 - 1 / 2) * q" using assms(2) unfolding threshold_eq qe .
        then have "y / q < 2 ^ 53 - 1 / 2" using qpos by (intro divide_less_top)
        then have "y / q < of_int (2 ^ 53) - 1 / 2" by simp
        then have "n \<le> 2 ^ 53 - 1" unfolding n_def by (rule rne_below_half)
        then have "real_of_int n \<le> 2 ^ 53 - 1" by (rule of_int_le_pow53)
        then have "x \<le> (2 ^ 53 - 1) * q" unfolding x using qpos by (intro mult_right_mono) simp_all
        also have "\<dots> < 2 ^ 53 * q" using qpos by (intro mult_strict_right_mono) simp_all
        also have "\<dots> = pow2 1024" unfolding qe by (rule pow2_1024_eq)
        finally show False using xe e1023 by simp
      qed
      then have e1: "e + 1 \<le> 1023" using er by simp
      have ex: "expo x = e + 1" using er e1 xe by (intro expo_unique) simp_all
      have p52: "pow2 52 = 2 ^ 52" by (simp add: pow2_def)
      have "pow2 (52 + (e + 1 - 52)) = pow2 52 * pow2 (e + 1 - 52)" by (rule pow2_add)
      moreover have "52 + (e + 1 - 52) = e + 1" by simp
      ultimately have "pow2 (e + 1) = 2 ^ 52 * pow2 (e + 1 - 52)" unfolding p52 by metis
      then have "x = of_int (2 ^ 52) * pow2 (e + 1 - 52)"
        unfolding xe by simp
      then have fixd: "roundToDouble x = x" using ex by (intro roundToDouble_multiple[of x "e + 1" "2 ^ 52"])
      have "pow2 (e + 1) \<le> pow2 1023" using e1 by simp
      then have "x < overflow_threshold" using xe pow2_1023_less_threshold by linarith
      then show ?thesis using fixd unfolding x_def by simp
    qed
  qed
qed

lemma round_number_idem:
  assumes "round_number y = Fin x"
  shows "is_double x"
proof -
  have rng: "y < overflow_threshold" "- overflow_threshold < y" and x: "x = roundToDouble y"
    using assms by (auto simp: round_number_def split: if_splits)
  show ?thesis
  proof (cases "0 \<le> y")
    case True
    from roundToDouble_fixed_nonneg[OF True rng(1)] roundToDouble_nonneg[OF True] threshold_pos
    show ?thesis unfolding x by (auto simp: is_double_def round_number_def)
  next
    case False
    then have "0 \<le> - y" "- y < overflow_threshold" using rng by simp_all
    from roundToDouble_fixed_nonneg[OF this] roundToDouble_nonneg[OF this(1)] threshold_pos
    have "is_double (roundToDouble (- y))"
      by (auto simp: is_double_def round_number_def)
    then show ?thesis unfolding x by (simp add: roundToDouble_minus)
  qed
qed

lemma is_double_multiple:
  assumes "is_double x"
  shows "\<exists>n. x = of_int n * pow2 (expo x - 52)"
proof -
  have "roundToDouble x = x"
    using assms by (auto simp: is_double_def round_number_def split: if_splits)
  then have "x = of_int (roundTiesToEven (x / ulp x)) * pow2 (expo x - 52)"
    by (simp add: roundToDouble_def ulp_def)
  then show ?thesis by blast
qed

lemma is_double_half_of:
  assumes "is_double w" "1 \<le> w"
  shows "is_double (w / 2)"
proof -
  obtain n where n: "w = of_int n * pow2 (expo w - 52)"
    using is_double_multiple[OF assms(1)] by blast
  have wlt: "w < overflow_threshold"
    using assms(1) by (auto simp: is_double_def round_number_def split: if_splits)
  have w0: "\<bar>w\<bar> = w" using assms(2) by simp
  have "pow2 (-1022) \<le> 1" using pow2_le_iff[of "-1022" 0] by simp
  then have norm: "pow2 (-1022) \<le> \<bar>w\<bar>" using assms(2) w0 by linarith
  have up: "\<bar>w\<bar> < pow2 1024" using wlt threshold_less_pow2_1024 w0 by linarith
  have lo: "pow2 (expo w) \<le> w" using expo_normal(1)[OF norm] w0 by simp
  have hi: "w < pow2 (expo w + 1)" using expo_normal(4)[OF norm up] w0 by simp
  have e0: "0 \<le> expo w"
  proof (rule ccontr)
    assume "\<not> 0 \<le> expo w"
    then have "expo w + 1 \<le> 0" by simp
    then have "pow2 (expo w + 1) \<le> 1" using pow2_le_iff[of "expo w + 1" 0] by simp
    then show False using hi assms(2) by linarith
  qed
  have e1: "expo w \<le> 1023" using expo_normal(3)[OF norm] .
  have two: "pow2 (expo w) = 2 * pow2 (expo w - 1)" using pow2_Suc[of "expo w - 1"] by simp
  have two': "pow2 (expo w + 1) = 2 * pow2 (expo w)" using pow2_Suc[of "expo w"] by simp
  have two'': "pow2 (expo w - 52) = 2 * pow2 (expo w - 1 - 52)"
    using pow2_Suc[of "expo w - 1 - 52"] by (simp add: algebra_simps)
  have ex: "expo (w / 2) = expo w - 1"
  proof (rule expo_unique)
    show "-1022 \<le> expo w - 1" using e0 by simp
    show "expo w - 1 \<le> 1023" using e1 by simp
    show "pow2 (expo w - 1) \<le> \<bar>w / 2\<bar>" using lo two assms(2) by simp
    show "\<bar>w / 2\<bar> < pow2 (expo w - 1 + 1)" using hi two' assms(2) by simp
  qed
  have "w / 2 = of_int n * pow2 (expo w - 1 - 52)"
    using n two'' by simp
  from roundToDouble_multiple[OF ex this]
  have "roundToDouble (w / 2) = w / 2" .
  moreover have "w / 2 < overflow_threshold" "- overflow_threshold < w / 2"
    using wlt assms(2) threshold_pos by simp_all
  ultimately show ?thesis by (simp add: is_double_def round_number_def)
qed

section \<open>Properties of the hover time in double precision\<close>

lemmas hover_js_defs = handlePositionChange_js_def time_js_def starting_js_def ending_js_def
  percentComplete_js_def initialTranslate_js_def divide_js_def js_ge_def js_gt_def js_sub_def

text \<open>
  The offset of the end branch, \<open>(1 - 1 / scale) * durationMs\<close>, and half the width are
  finite.
\<close>

lemma end_offset_finite:
  assumes "is_double d" "0 < d" "1 \<le> s"
  shows "\<exists>e. js_mul (js_sub (Fin 1) (js_div (Fin 1) (Fin s))) (Fin d) = Fin e \<and> 0 \<le> e \<and> e \<le> d"
proof -
  have s0: "s \<noteq> 0" "0 < s" using assms(3) by simp_all
  have "0 \<le> 1 / s" "1 / s \<le> 1" using assms(3) by simp_all
  from round_number_between[OF is_double_0 is_double_1 this]
  obtain r where r: "round_number (1 / s) = Fin r" "0 \<le> r" "r \<le> 1" by blast
  have "0 \<le> 1 + - r" "1 + - r \<le> 1" using r by simp_all
  from round_number_between[OF is_double_0 is_double_1 this]
  obtain v where v: "round_number (1 + - r) = Fin v" "0 \<le> v" "v \<le> 1" by blast
  have "0 \<le> v * d" using v assms(2) by simp
  moreover have "v * d \<le> d" using v assms(2) by (simp add: mult_left_le_one_le)
  ultimately obtain e where e: "round_number (v * d) = Fin e" "0 \<le> e" "e \<le> d"
    using round_number_between[OF is_double_0 assms(1)] by blast
  show ?thesis using s0 r v e by (simp add: js_sub_def)
qed

lemma half_width_finite:
  assumes "is_double w" "0 < w"
  shows "\<exists>k. js_div (Fin w) (Fin 2) = Fin k \<and> 0 \<le> k \<and> k \<le> w"
proof -
  have "0 \<le> w / 2" "w / 2 \<le> w" using assms(2) by simp_all
  from round_number_between[OF is_double_0 assms(1) this] show ?thesis by simp
qed

lemma time_js_mono:
  assumes "is_double w" "is_double d" "0 < w" "0 < d" "1 \<le> s" "js_le x y"
  shows "js_le (time_js \<lparr>left_js = x, width_js = Fin w\<rparr> (Fin d) (Fin c) (Fin s))
               (time_js \<lparr>left_js = y, width_js = Fin w\<rparr> (Fin d) (Fin c) (Fin s))"
proof -
  have s0: "0 < s" using assms(5) by simp
  obtain e where e: "js_mul (js_sub (Fin 1) (js_div (Fin 1) (Fin s))) (Fin d) = Fin e"
    using end_offset_finite[OF assms(2,4,5)] by blast
  obtain k where k: "js_div (Fin w) (Fin 2) = Fin k"
    using half_width_finite[OF assms(1,3)] by blast
  have clamped: "js_le (js_div (js_mul (js_div x (Fin w)) (Fin d)) (Fin s))
                       (js_div (js_mul (js_div y (Fin w)) (Fin d)) (Fin s))"
    by (intro js_div_mono js_mul_mono assms(6) assms(3,4) s0)
  have centred: "js_le (js_div (js_mul (js_div (js_sub x (Fin k)) (Fin w)) (Fin d)) (Fin s))
                       (js_div (js_mul (js_div (js_sub y (Fin k)) (Fin w)) (Fin d)) (Fin s))"
    by (intro js_div_mono js_mul_mono js_sub_mono_left assms(6) assms(3,4) s0)
  show ?thesis
    unfolding time_js_def Let_def params_js.simps e k
    using clamped js_add_mono_left[OF clamped, of e] js_add_mono_right[OF centred, of c]
    by simp
qed




text \<open>The two edges, branch by branch.\<close>

lemma left_edge_js:
  assumes "is_double w" "is_double d" "is_double c" "is_double s"
    and "1 \<le> s" "0 < w" "0 < d" "0 \<le> c" "c \<le> d"
  shows "\<exists>t0. time_js \<lparr>left_js = Fin 0, width_js = Fin w\<rparr> (Fin d) (Fin c) (Fin s) = t0
       \<and> js_le t0 (Fin d)
       \<and> (starting_js (Fin s) (Fin c) (Fin d) \<longrightarrow> t0 = Fin 0)
       \<and> (\<not> starting_js (Fin s) (Fin c) (Fin d) \<and> ending_js (Fin s) (Fin c) (Fin d)
            \<longrightarrow> js_le (Fin 0) t0)"
proof -
  have nz: "w \<noteq> 0" "d \<noteq> 0" "s \<noteq> 0" "0 < s" using assms by simp_all
  obtain e where e: "js_mul (js_sub (Fin 1) (js_div (Fin 1) (Fin s))) (Fin d) = Fin e"
    "0 \<le> e" "e \<le> d"
    using end_offset_finite[OF assms(2,7,5)] by blast
  obtain k where k: "js_div (Fin w) (Fin 2) = Fin k" "0 \<le> k" "k \<le> w"
    using half_width_finite[OF assms(1,6)] by blast
  have dm: "is_double (- d)" "is_double (- w)" "is_double (- 1)" using assms by simp_all
  \<comment> \<open>end branch\<close>
  obtain te where te: "round_number e = Fin te" "0 \<le> te" "te \<le> d"
    using round_number_between[OF is_double_0 assms(2) e(2,3)] by blast
  \<comment> \<open>mid branch\<close>
  have "- w \<le> - k" "- k \<le> 0" using k by simp_all
  from round_number_between[OF dm(2) is_double_0 this]
  obtain a where a: "round_number (- k) = Fin a" "- w \<le> a" "a \<le> 0" by blast
  have "- 1 \<le> a / w" "a / w \<le> 0" using a assms(6) by (simp_all add: field_simps)
  from round_number_between[OF dm(3) is_double_0 this]
  obtain b where b: "round_number (a / w) = Fin b" "- 1 \<le> b" "b \<le> 0" by blast
  have "(- 1) * d \<le> b * d" using b(2) assms(7) by (intro mult_right_mono) simp_all
  then have "- d \<le> b * d" by simp
  moreover have "b * d \<le> 0" using b assms(7) by (simp add: mult_le_0_iff)
  ultimately obtain m1 where m1: "round_number (b * d) = Fin m1" "- d \<le> m1" "m1 \<le> 0"
    using round_number_between[OF dm(1) is_double_0] by blast
  have "1 / s \<le> 1" using assms(5) by simp
  then have "m1 * 1 \<le> m1 * (1 / s)" using m1(3) by (rule mult_left_mono_neg)
  then have "m1 \<le> m1 / s" by simp
  then have "- d \<le> m1 / s" using m1(2) by linarith
  moreover have "m1 / s \<le> 0" using m1(3) nz(4) by (simp add: divide_le_0_iff)
  ultimately obtain m2 where m2: "round_number (m1 / s) = Fin m2" "- d \<le> m2" "m2 \<le> 0"
    using round_number_between[OF dm(1) is_double_0] by blast
  have "- d \<le> c + m2" "c + m2 \<le> d" using m2 assms(8,9) by linarith+
  from round_number_between[OF dm(1) assms(2) this]
  obtain tm where tm: "round_number (c + m2) = Fin tm" "tm \<le> d" by blast
  show ?thesis
    unfolding time_js_def Let_def params_js.simps e k
    using nz te a b m1 m2 tm by (simp add: js_sub_def)
qed


lemma right_edge_js:
  assumes "is_double w" "is_double d" "is_double c" "is_double s"
    and "1 \<le> s" "0 < w" "0 < d" "0 \<le> c" "c \<le> d"
  shows "\<exists>tw. time_js \<lparr>left_js = Fin w, width_js = Fin w\<rparr> (Fin d) (Fin c) (Fin s) = tw
       \<and> js_le (Fin 0) tw
       \<and> (starting_js (Fin s) (Fin c) (Fin d) \<longrightarrow> js_le tw (Fin d))"
proof -
  have nz: "w \<noteq> 0" "d \<noteq> 0" "s \<noteq> 0" "0 < s" using assms by simp_all
  obtain e where e: "js_mul (js_sub (Fin 1) (js_div (Fin 1) (Fin s))) (Fin d) = Fin e"
    "0 \<le> e" "e \<le> d"
    using end_offset_finite[OF assms(2,7,5)] by blast
  obtain k where k: "js_div (Fin w) (Fin 2) = Fin k" "0 \<le> k" "k \<le> w"
    using half_width_finite[OF assms(1,6)] by blast
  \<comment> \<open>start and end branches: \<open>percent = 1\<close>, \<open>percent * durationMs = durationMs\<close>\<close>
  have "0 \<le> d / s" using assms(7) nz(4) by simp
  moreover have "d / s \<le> d" using assms(5,7) by (simp add: field_simps)
  ultimately obtain q where q: "round_number (d / s) = Fin q" "0 \<le> q" "q \<le> d"
    using round_number_between[OF is_double_0 assms(2)] by blast
  have "0 \<le> q + e" using q e by simp
  from round_number_mono[OF this]
  have te: "js_le (Fin 0) (round_number (q + e))" by simp
  \<comment> \<open>mid branch\<close>
  have "0 \<le> w + - k" "w + - k \<le> w" using k by simp_all
  from round_number_between[OF is_double_0 assms(1) this]
  obtain a where a: "round_number (w + - k) = Fin a" "0 \<le> a" "a \<le> w" by blast
  have "0 \<le> a / w" "a / w \<le> 1" using a assms(6) by (simp_all add: field_simps)
  from round_number_between[OF is_double_0 is_double_1 this]
  obtain b where b: "round_number (a / w) = Fin b" "0 \<le> b" "b \<le> 1" by blast
  have "0 \<le> b * d" using b assms(7) by simp
  moreover have "b * d \<le> d" using b assms(7) by (simp add: mult_left_le_one_le)
  ultimately obtain m1 where m1: "round_number (b * d) = Fin m1" "0 \<le> m1" "m1 \<le> d"
    using round_number_between[OF is_double_0 assms(2)] by blast
  have "0 \<le> c + m1 / s" using m1(2) assms(8) nz(4) by simp
  have "0 \<le> m1 / s" using m1(2) nz(4) by simp
  from round_number_mono[OF this]
  have m2: "js_le (Fin 0) (round_number (m1 / s))" by simp
  have tm: "js_le (Fin 0) (js_add (Fin c) (round_number (m1 / s)))"
  proof -
    have "js_le (js_add (Fin c) (Fin 0)) (js_add (Fin c) (round_number (m1 / s)))"
      using m2 by (rule js_add_mono_right)
    moreover have "js_le (Fin 0) (js_add (Fin c) (Fin 0))"
      using round_number_mono[OF assms(8)] by simp
    ultimately show ?thesis by (rule js_le_trans[rotated])
  qed
  show ?thesis
    unfolding time_js_def Let_def params_js.simps e k
    using nz assms(2) q te a b m1 tm by (simp add: js_sub_def)
qed




subsection \<open>Zoom 1 in double precision\<close>

text \<open>
  The statements of C3, proved above for the exact embedding, hold for the
  double-precision one as well: dividing by \<open>1\<close>, \<open>1 - 1 / 1\<close>, multiplying \<open>0\<close> and
  adding \<open>0\<close> are exact.
\<close>

lemma js_value_round [simp]: "js_value (round_number y)"
  using round_number_idem[of y] by (cases "round_number y") (auto simp: js_value_def)

lemma js_value_mul_Fin [simp]: "js_value (js_mul x (Fin b))"
  by (cases x) (auto simp: js_value_def inf_of_sign_def intro: js_value_round[unfolded js_value_def])

lemma js_div_one: "js_value x \<Longrightarrow> js_div x (Fin 1) = x"
  by (cases x) (auto simp: js_value_def inf_of_sign_def)

lemma js_add_zero: "js_value x \<Longrightarrow> js_add x (Fin 0) = x"
  by (cases x) (auto simp: js_value_def)

lemma js_le_not_lt: "js_le a b \<Longrightarrow> \<not> js_lt b a"
  by (cases a; cases b) auto

lemma is_double_30000 [simp]: "is_double 30000"
  by (rule is_doubleI[of 14 _ "30000 * 2 ^ 38"]) (simp_all add: pow2_def)

lemma is_double_60000 [simp]: "is_double 60000"
  by (rule is_doubleI[of 15 _ "60000 * 2 ^ 37"]) (simp_all add: pow2_def)

lemma zoom_1_flags:
  assumes "0 < d"
  shows "starting_js (Fin 1) (Fin c) (Fin d) \<longrightarrow> c < d / 2"
    and "ending_js (Fin 1) (Fin c) (Fin d) \<longrightarrow> d / 2 < c"
    and "c = d / 2 \<longrightarrow> \<not> starting_js (Fin 1) (Fin c) (Fin d) \<and> \<not> ending_js (Fin 1) (Fin c) (Fin d)"
proof -
  have d0: "d \<noteq> 0" using assms by simp
  have it: "initialTranslate_js (Fin 1) = Fin (1 / 2)"
    by (simp add: initialTranslate_js_def)
  have pc: "percentComplete_js (Fin c) (Fin d) = round_number (c / d)"
    using d0 by (simp add: percentComplete_js_def divide_js_def)
  show "starting_js (Fin 1) (Fin c) (Fin d) \<longrightarrow> c < d / 2"
  proof (rule impI, rule ccontr)
    assume st: "starting_js (Fin 1) (Fin c) (Fin d)" and "\<not> c < d / 2"
    then have "1 / 2 \<le> c / d" using assms by (simp add: field_simps)
    from round_number_mono[OF this] have "js_le (Fin (1 / 2)) (round_number (c / d))" by simp
    then have "\<not> js_lt (round_number (c / d)) (Fin (1 / 2))" by (rule js_le_not_lt)
    then show False using st unfolding starting_js_def it pc by simp
  qed
  show "ending_js (Fin 1) (Fin c) (Fin d) \<longrightarrow> d / 2 < c"
  proof (rule impI, rule ccontr)
    assume en: "ending_js (Fin 1) (Fin c) (Fin d)" and "\<not> d / 2 < c"
    then have "c / d \<le> 1 / 2" using assms by (simp add: field_simps)
    from round_number_mono[OF this] have "js_le (round_number (c / d)) (Fin (1 / 2))" by simp
    from js_add_mono_left[OF this, of "1 / 2"]
    have "js_le (js_add (round_number (c / d)) (Fin (1 / 2))) (Fin 1)" by simp
    then have "\<not> js_lt (Fin 1) (js_add (round_number (c / d)) (Fin (1 / 2)))" by (rule js_le_not_lt)
    then show False using en unfolding ending_js_def it pc js_gt_def by simp
  qed
  show "c = d / 2 \<longrightarrow> \<not> starting_js (Fin 1) (Fin c) (Fin d) \<and> \<not> ending_js (Fin 1) (Fin c) (Fin d)"
  proof
    assume "c = d / 2"
    then have "c / d = 1 / 2" using d0 by simp
    then show "\<not> starting_js (Fin 1) (Fin c) (Fin d) \<and> \<not> ending_js (Fin 1) (Fin c) (Fin d)"
      unfolding starting_js_def ending_js_def it pc js_gt_def by simp
  qed
qed

lemma zoom_1_values:
  assumes "0 \<le> l"
  shows "starting_js (Fin 1) (Fin c) (Fin d) \<or> ending_js (Fin 1) (Fin c) (Fin d) \<longrightarrow>
           handlePositionChange_js (Some \<lparr>left_js = Fin l, width_js = Fin w\<rparr>)
             (Some (Fin d)) (Fin c) (Fin 1)
           = Some (js_mul (js_div (Fin l) (Fin w)) (Fin d))"
    and "\<not> starting_js (Fin 1) (Fin c) (Fin d) \<and> \<not> ending_js (Fin 1) (Fin c) (Fin d) \<longrightarrow>
           handlePositionChange_js (Some \<lparr>left_js = Fin l, width_js = Fin w\<rparr>)
             (Some (Fin d)) (Fin c) (Fin 1)
           = Some (js_add (Fin c)
               (js_mul (js_div (js_sub (Fin l) (js_div (Fin w) (Fin 2))) (Fin w)) (Fin d)))"
proof -
  define X where "X = js_mul (js_div (Fin l) (Fin w)) (Fin d)"
  define Y where "Y = js_mul (js_div (js_sub (Fin l) (js_div (Fin w) (Fin 2))) (Fin w)) (Fin d)"
  have off: "js_mul (js_sub (Fin 1) (js_div (Fin 1) (Fin 1))) (Fin d) = Fin 0"
    by (simp add: js_sub_def)
  have X1: "js_div X (Fin 1) = X" unfolding X_def by (rule js_div_one) simp
  have X0: "js_add X (Fin 0) = X" unfolding X_def by (rule js_add_zero) simp
  have Y1: "js_div Y (Fin 1) = Y" unfolding Y_def by (rule js_div_one) simp
  have ge: "js_ge (Fin l) (Fin 0)" using assms by (simp add: js_ge_def)
  have t: "time_js \<lparr>left_js = Fin l, width_js = Fin w\<rparr> (Fin d) (Fin c) (Fin 1)
      = (if starting_js (Fin 1) (Fin c) (Fin d) then X
         else if ending_js (Fin 1) (Fin c) (Fin d) then X else js_add (Fin c) Y)"
    unfolding time_js_def Let_def params_js.simps off X_def[symmetric] Y_def[symmetric] X1 X0 Y1 ..
  have h: "handlePositionChange_js (Some \<lparr>left_js = Fin l, width_js = Fin w\<rparr>)
             (Some (Fin d)) (Fin c) (Fin 1)
      = Some (if starting_js (Fin 1) (Fin c) (Fin d) then X
         else if ending_js (Fin 1) (Fin c) (Fin d) then X else js_add (Fin c) Y)"
    unfolding handlePositionChange_js_def t[symmetric] using ge by simp
  show "starting_js (Fin 1) (Fin c) (Fin d) \<or> ending_js (Fin 1) (Fin c) (Fin d) \<longrightarrow>
           handlePositionChange_js (Some \<lparr>left_js = Fin l, width_js = Fin w\<rparr>)
             (Some (Fin d)) (Fin c) (Fin 1)
           = Some (js_mul (js_div (Fin l) (Fin w)) (Fin d))"
    unfolding h X_def[symmetric] by simp
  show "\<not> starting_js (Fin 1) (Fin c) (Fin d) \<and> \<not> ending_js (Fin 1) (Fin c) (Fin d) \<longrightarrow>
           handlePositionChange_js (Some \<lparr>left_js = Fin l, width_js = Fin w\<rparr>)
             (Some (Fin d)) (Fin c) (Fin 1)
           = Some (js_add (Fin c)
               (js_mul (js_div (js_sub (Fin l) (js_div (Fin w) (Fin 2))) (Fin w)) (Fin d)))"
    unfolding h Y_def[symmetric] by simp
qed

lemma zoom_1_scenario:
  assumes "is_double w" "is_double (w / 2)" "0 < w"
  shows "handlePositionChange_js (Some \<lparr>left_js = Fin 0, width_js = Fin w\<rparr>)
           (Some (Fin 60000)) (Fin 30000) (Fin 1) = Some (Fin 0)"
proof -
  have fl: "\<not> starting_js (Fin 1) (Fin 30000) (Fin 60000)
            \<and> \<not> ending_js (Fin 1) (Fin 30000) (Fin 60000)"
    using zoom_1_flags(3)[of 60000 30000] by simp
  have w0: "w \<noteq> 0" using assms(3) by simp
  have k: "js_div (Fin w) (Fin 2) = Fin (w / 2)" using assms(2) by simp
  have a: "js_sub (Fin 0) (Fin (w / 2)) = Fin (- (w / 2))"
    using assms(2) by (simp add: js_sub_def)
  have "- (w / 2) / w = - (1 / 2)" using w0 by simp
  then have b: "js_div (Fin (- (w / 2))) (Fin w) = Fin (- (1 / 2))"
    using w0 by simp
  have c: "js_mul (Fin (- (1 / 2))) (Fin 60000) = Fin (- 30000)"
    by simp
  have d: "js_add (Fin 30000) (Fin (- 30000)) = Fin 0" by simp
  from zoom_1_values(2)[of 0 30000 60000 w] fl
  show ?thesis unfolding k a b c d by simp
qed

lemma zoom_1_clamping_branch_js: "starting_js (Fin 1) (Fin 0) (Fin 60000) \<and> ending_js (Fin 1) (Fin 60000) (Fin 60000)"
proof -
  have "is_double (3 / 2)"
    by (rule is_doubleI[of 0 _ "3 * 2 ^ 51"]) (simp_all add: pow2_def)
  then show ?thesis
    by (simp add: starting_js_def ending_js_def percentComplete_js_def initialTranslate_js_def
        divide_js_def js_gt_def)
qed

section \<open>Properties of the playback controls\<close>

text \<open>The running minimum of \<open>getNextReplayFrame\<close>.\<close>

lemma fold_keep:
  "\<forall>g\<in>set fs. \<not> offsetMs g < offsetMs f \<Longrightarrow>
   fold (\<lambda>g found. if offsetMs g < offsetMs found then g else found) fs f = f"
  by (induction fs) auto

lemma fold_smallest:
  "fold (\<lambda>g found. if offsetMs g < offsetMs found then g else found) fs f \<in> set (f # fs)
   \<and> (\<forall>g\<in>set (f # fs).
        offsetMs (fold (\<lambda>g found. if offsetMs g < offsetMs found then g else found) fs f)
          \<le> offsetMs g)"
proof (induction fs arbitrary: f)
  case Nil
  then show ?case by simp
next
  case (Cons a fs)
  show ?case
  proof (cases "offsetMs a < offsetMs f")
    case True
    then show ?thesis using Cons.IH[of a] by fastforce
  next
    case False
    then show ?thesis using Cons.IH[of f] by fastforce
  qed
qed

text \<open>
  The lookup returns a frame strictly after the query with the smallest offset among
  those, and nothing exactly when no frame lies after the query.
\<close>

lemma getNextReplayFrame_smallest_after:
  "(case getNextReplayFrame fs c of
      None \<Rightarrow> \<forall>g\<in>set fs. offsetMs g \<le> c
    | Some f \<Rightarrow> f \<in> set fs \<and> c < offsetMs f
                \<and> (\<forall>g\<in>set fs. c < offsetMs g \<longrightarrow> offsetMs f \<le> offsetMs g))"
proof (cases "filter (\<lambda>f. c < offsetMs f) fs")
  case Nil
  then have "\<forall>g\<in>set fs. offsetMs g \<le> c"
    by (auto simp: filter_empty_conv not_less)
  then show ?thesis using Nil by (simp add: getNextReplayFrame_def)
next
  case (Cons f rest)
  let ?m = "fold (\<lambda>g found. if offsetMs g < offsetMs found then g else found) rest f"
  have set_eq: "set (f # rest) = {g \<in> set fs. c < offsetMs g}"
    using Cons[symmetric] by simp
  have "?m \<in> set (f # rest)" and least: "\<forall>g\<in>set (f # rest). offsetMs ?m \<le> offsetMs g"
    using fold_smallest[of rest f] by blast+
  then have "?m \<in> set fs \<and> c < offsetMs ?m" using set_eq by blast
  moreover have "\<forall>g\<in>set fs. c < offsetMs g \<longrightarrow> offsetMs ?m \<le> offsetMs g"
    using least set_eq by blast
  ultimately show ?thesis using Cons by (simp add: getNextReplayFrame_def)
qed

lemma getNextReplayFrame_none_after:
  "\<forall>f\<in>set pre. offsetMs f \<le> c \<Longrightarrow> getNextReplayFrame pre c = None"
  by (simp add: getNextReplayFrame_def filter_empty_conv not_less split: list.splits)

lemma getNextReplayFrame_first_after:
  assumes "\<forall>g\<in>set pre. offsetMs g \<le> c" "c < offsetMs f"
    "\<forall>g\<in>set post. offsetMs f < offsetMs g"
  shows "getNextReplayFrame (pre @ f # post) c = Some f"
proof -
  have "filter (\<lambda>g. c < offsetMs g) pre = []"
    using assms(1) by (auto simp: filter_empty_conv)
  moreover have "filter (\<lambda>g. c < offsetMs g) post = post"
    using assms(2,3) by (auto simp: filter_id_conv)
  ultimately have "filter (\<lambda>g. c < offsetMs g) (pre @ f # post) = f # post"
    using assms(2) by simp
  moreover have "fold (\<lambda>g found. if offsetMs g < offsetMs found then g else found) post f = f"
    using assms(3) by (intro fold_keep) auto
  ultimately show ?thesis by (simp add: getNextReplayFrame_def)
qed

text \<open>
  Repeated clicks, with the frames split into those already passed and those ahead of
  the playhead.
\<close>

lemma clicks_visit_remaining:
  assumes "getChapterFrames r = pre @ post"
    "\<forall>g\<in>set pre. offsetMs g \<le> currentTimeMs clk"
    "sorted_wrt (<) (map offsetMs post)"
    "\<forall>g\<in>set post. currentTimeMs clk < offsetMs g \<and> offsetMs g \<le> recordingDurationMs clk"
    "0 \<le> currentTimeMs clk"
  shows "map currentTimeMs (clicks (length post) (Some r) clk) = map offsetMs post
       \<and> nextBreadcrumb_onClick (Some r) (last (clk # clicks (length post) (Some r) clk))
           = last (clk # clicks (length post) (Some r) clk)"
  using assms
proof (induction post arbitrary: pre clk)
  case Nil
  then show ?case
    by (simp add: nextBreadcrumb_onClick_def getNextReplayFrame_none_after)
next
  case (Cons f post)
  let ?clk' = "setCurrentTime (offsetMs f) clk"
  have nxt: "getNextReplayFrame (getChapterFrames r) (currentTimeMs clk) = Some f"
    using Cons.prems by (simp add: getNextReplayFrame_first_after)
  then have step: "nextBreadcrumb_onClick (Some r) clk = ?clk'"
    by (simp add: nextBreadcrumb_onClick_def)
  have t': "currentTimeMs ?clk' = offsetMs f"
    and d': "recordingDurationMs ?clk' = recordingDurationMs clk"
    using Cons.prems by (auto simp: setCurrentTime_def)
  have IH: "map currentTimeMs (clicks (length post) (Some r) ?clk') = map offsetMs post
       \<and> nextBreadcrumb_onClick (Some r) (last (?clk' # clicks (length post) (Some r) ?clk'))
           = last (?clk' # clicks (length post) (Some r) ?clk')"
  proof (rule Cons.IH[of "pre @ [f]" ?clk'])
    show "getChapterFrames r = (pre @ [f]) @ post" using Cons.prems(1) by simp
    show "\<forall>g\<in>set (pre @ [f]). offsetMs g \<le> currentTimeMs ?clk'"
      using Cons.prems(2,4) t' by fastforce
    show "sorted_wrt (<) (map offsetMs post)" using Cons.prems(3) by simp
    show "\<forall>g\<in>set post. currentTimeMs ?clk' < offsetMs g
             \<and> offsetMs g \<le> recordingDurationMs ?clk'"
      using Cons.prems(3,4) t' d' by auto
    show "0 \<le> currentTimeMs ?clk'" using Cons.prems(4,5) t' by auto
  qed
  show ?case using IH step t' by (simp add: Let_def)
qed


text \<open>
  C5. The "Next breadcrumb" click looks up the frame with the smallest offset strictly
  after \<open>currentTime\<close>; when one is found the clock seeks to its offset, when none is
  found (or no replay is loaded) the clock is left exactly as it was, status included.
  Consequently, on a recording whose chapter frames have strictly ascending offsets, all
  after the starting \<open>currentTime\<close> and none beyond the duration, as many clicks as there
  are frames visit the frames in ascending order, each once, and the click after the last
  one changes nothing. With ten such frames this is the scenario of ten clicks and an
  eleventh without effect.
\<close>

theorem nextBreadcrumb_visits_frames_in_order:
  assumes "getChapterFrames r = fs"
    and "sorted_wrt (<) (map offsetMs fs)"
    and "\<forall>g\<in>set fs. currentTimeMs clk < offsetMs g \<and> offsetMs g \<le> recordingDurationMs clk"
    and "0 \<le> currentTimeMs clk"
  shows "map currentTimeMs (clicks (length fs) (Some r) clk) = map offsetMs fs
       \<and> nextBreadcrumb_onClick (Some r) (last (clk # clicks (length fs) (Some r) clk))
           = last (clk # clicks (length fs) (Some r) clk)
       \<and> nextBreadcrumb_onClick None clk' = clk'
       \<and> nextBreadcrumb_onClick (Some r') clk' =
           (case getNextReplayFrame (getChapterFrames r') (currentTimeMs clk') of
              None \<Rightarrow> clk'
            | Some f \<Rightarrow> setCurrentTime (offsetMs f) clk')
       \<and> (case getNextReplayFrame fs' c' of
             None \<Rightarrow> \<forall>g\<in>set fs'. offsetMs g \<le> c'
           | Some f \<Rightarrow> f \<in> set fs' \<and> c' < offsetMs f
                \<and> (\<forall>g\<in>set fs'. c' < offsetMs g \<longrightarrow> offsetMs f \<le> offsetMs g))"
proof -
  have "getChapterFrames r = [] @ fs" using assms(1) by simp
  from clicks_visit_remaining[OF this _ assms(2,3,4)]
  have "map currentTimeMs (clicks (length fs) (Some r) clk) = map offsetMs fs
       \<and> nextBreadcrumb_onClick (Some r) (last (clk # clicks (length fs) (Some r) clk))
           = last (clk # clicks (length fs) (Some r) clk)"
    by simp
  moreover have "nextBreadcrumb_onClick None clk' = clk'"
    by (simp add: nextBreadcrumb_onClick_def)
  moreover have "nextBreadcrumb_onClick (Some r') clk' =
           (case getNextReplayFrame (getChapterFrames r') (currentTimeMs clk') of
              None \<Rightarrow> clk'
            | Some f \<Rightarrow> setCurrentTime (offsetMs f) clk')"
    by (simp add: nextBreadcrumb_onClick_def)
  ultimately show ?thesis
    using getNextReplayFrame_smallest_after[of fs' c'] by blast
qed

text \<open>Ten frames, one per second from 1000 ms on, starting from \<open>currentTime = 0\<close>.\<close>

theorem nextBreadcrumb_visits_frames_in_order_witness:
  "map currentTimeMs (clicks 10
       (Some \<lparr>getChapterFrames =
          map frameAt [1000, 2000, 3000, 4000, 5000, 6000, 7000, 8000, 9000, 10000]\<rparr>)
       \<lparr>recordingDurationMs = 60000, currentTimeMs = 0, status = Paused, speed = 1\<rparr>)
     = [1000, 2000, 3000, 4000, 5000, 6000, 7000, 8000, 9000, 10000]
   \<and> nextBreadcrumb_onClick
       (Some \<lparr>getChapterFrames =
          map frameAt [1000, 2000, 3000, 4000, 5000, 6000, 7000, 8000, 9000, 10000]\<rparr>)
       (last (\<lparr>recordingDurationMs = 60000, currentTimeMs = 0, status = Paused, speed = 1\<rparr>
          # clicks 10
             (Some \<lparr>getChapterFrames =
                map frameAt [1000, 2000, 3000, 4000, 5000, 6000, 7000, 8000, 9000, 10000]\<rparr>)
             \<lparr>recordingDurationMs = 60000, currentTimeMs = 0, status = Paused, speed = 1\<rparr>))
     = last (\<lparr>recordingDurationMs = 60000, currentTimeMs = 0, status = Paused, speed = 1\<rparr>
          # clicks 10
             (Some \<lparr>getChapterFrames =
                map frameAt [1000, 2000, 3000, 4000, 5000, 6000, 7000, 8000, 9000, 10000]\<rparr>)
             \<lparr>recordingDurationMs = 60000, currentTimeMs = 0, status = Paused, speed = 1\<rparr>)"
proof -
  let ?fs = "map frameAt [1000, 2000, 3000, 4000, 5000, 6000, 7000, 8000, 9000, 10000]"
  let ?r = "\<lparr>getChapterFrames = ?fs\<rparr>"
  let ?clk = "\<lparr>recordingDurationMs = 60000, currentTimeMs = 0, status = Paused, speed = 1\<rparr>"
  have len: "length ?fs = 10" by simp
  have offs: "map offsetMs ?fs = [1000, 2000, 3000, 4000, 5000, 6000, 7000, 8000, 9000, 10000]"
    by (simp add: frameAt_def)
  have h1: "getChapterFrames ?r = ?fs" by simp
  have h2: "sorted_wrt (<) (map offsetMs ?fs)" unfolding offs by simp
  have h3: "\<forall>g\<in>set ?fs. currentTimeMs ?clk < offsetMs g \<and> offsetMs g \<le> recordingDurationMs ?clk"
    by (simp add: frameAt_def)
  have h4: "0 \<le> currentTimeMs ?clk" by simp
  from nextBreadcrumb_visits_frames_in_order[OF h1 h2 h3 h4]
  have "map currentTimeMs (clicks (length ?fs) (Some ?r) ?clk) = map offsetMs ?fs
       \<and> nextBreadcrumb_onClick (Some ?r) (last (?clk # clicks (length ?fs) (Some ?r) ?clk))
           = last (?clk # clicks (length ?fs) (Some ?r) ?clk)"
    by blast
  then show ?thesis unfolding len offs .
qed

text \<open>
  C5 as stated, for any ten-frame recording, fails when the first frame sits at offset 0:
  starting from \<open>currentTime = 0\<close> that frame is never visited, nine clicks reach the last
  frame and the tenth click already changes nothing.
\<close>

theorem nextBreadcrumb_frame_at_start_counterexample:
  "map currentTimeMs (clicks 10
       (Some \<lparr>getChapterFrames =
          map frameAt [0, 1000, 2000, 3000, 4000, 5000, 6000, 7000, 8000, 9000]\<rparr>)
       \<lparr>recordingDurationMs = 60000, currentTimeMs = 0, status = Paused, speed = 1\<rparr>)
     = [1000, 2000, 3000, 4000, 5000, 6000, 7000, 8000, 9000, 9000]
   \<and> map currentTimeMs (clicks 10
       (Some \<lparr>getChapterFrames =
          map frameAt [0, 1000, 2000, 3000, 4000, 5000, 6000, 7000, 8000, 9000]\<rparr>)
       \<lparr>recordingDurationMs = 60000, currentTimeMs = 0, status = Paused, speed = 1\<rparr>)
     \<noteq> map offsetMs (map frameAt [0, 1000, 2000, 3000, 4000, 5000, 6000, 7000, 8000, 9000])"
  by code_simp

text \<open>
  C6. The rewind button seeks to \<open>currentTime - 10 * SECOND\<close>, passing the target on
  as it is; the clamp is the seek's. For every current position in \<open>[0, durationMs]\<close>
  and every \<open>deltaMs \<ge> 0\<close>, seeking to \<open>currentTime - deltaMs\<close> lands on
  \<open>max 0 (currentTime - deltaMs)\<close>, which is never negative, and leaves the play/pause
  status as it was; the button is the case \<open>deltaMs = 10000\<close>.
\<close>

theorem rewind_is_clamped_seek:
  assumes "0 \<le> currentTimeMs clk" "currentTimeMs clk \<le> recordingDurationMs clk"
    and "0 \<le> deltaMs"
  shows "rewind10_onClick clk = setCurrentTime (currentTimeMs clk - 10000) clk
       \<and> currentTimeMs (setCurrentTime (currentTimeMs clk - deltaMs) clk)
           = max 0 (currentTimeMs clk - deltaMs)
       \<and> 0 \<le> currentTimeMs (setCurrentTime (currentTimeMs clk - deltaMs) clk)
       \<and> status (setCurrentTime (currentTimeMs clk - deltaMs) clk) = status clk
       \<and> currentTimeMs (rewind10_onClick clk) = max 0 (currentTimeMs clk - 10000)
       \<and> 0 \<le> currentTimeMs (rewind10_onClick clk)
       \<and> status (rewind10_onClick clk) = status clk"
  using assms by (simp add: rewind10_onClick_def setCurrentTime_def SECOND_def min_def max_def)

text \<open>
  Four seconds into a playing recording the rewind lands on 0 and keeps playing; a seek
  back by 2500 ms lands on 1500 ms.
\<close>

theorem rewind_is_clamped_seek_witness:
  "currentTimeMs (rewind10_onClick
      \<lparr>recordingDurationMs = 60000, currentTimeMs = 4000, status = Playing, speed = 1\<rparr>) = 0
   \<and> status (rewind10_onClick
      \<lparr>recordingDurationMs = 60000, currentTimeMs = 4000, status = Playing, speed = 1\<rparr>) = Playing
   \<and> currentTimeMs (setCurrentTime (4000 - 2500)
      \<lparr>recordingDurationMs = 60000, currentTimeMs = 4000, status = Playing, speed = 1\<rparr>) = 1500"
  using rewind_is_clamped_seek
    [of "\<lparr>recordingDurationMs = 60000, currentTimeMs = 4000, status = Playing, speed = 1\<rparr>" 2500]
  by (simp add: setCurrentTime_def)


end
